theory Spec2Isabelle
  imports Complex_Main "HOL-Library.Multiset"
begin

section \<open>Data model\<close>

text \<open>
  The module \<open>backend/analysis.py\<close> is modelled function by function.

  \<^item> A Python \<open>dict\<close> is an association list in insertion order: storing under a key that
    is already present replaces the value where it stands, storing under a new key appends
    the pair at the end. A dictionary passed in from outside is an association list whose
    keys are distinct; iterating it visits its pairs from left to right.
  \<^item> Document identifiers, term frequencies and document counts are natural numbers (they
    come from \<open>range(len(...))\<close>, \<open>list.count\<close> and \<open>len\<close>).
  \<^item> Floating-point values (IDF weights, norms, scores) are idealised as real numbers.
    A division whose denominator is zero has no real value; the model reports it as
    \<open>ZeroDivisionError\<close>.
  \<^item> A string is a list of 8-bit characters; \<open>str.lower\<close> maps \<open>A\<close>..\<open>Z\<close> to
    \<open>a\<close>..\<open>z\<close> and leaves every other character alone.
  \<^item> The order in which a Python \<open>set\<close> is iterated is not fixed by the language. Every
    place where the source turns a set into a list takes the enumeration as a parameter.
  \<^item> A raised exception is the left summand of the result.
\<close>

datatype error = KeyError | IndexError | ZeroDivisionError | ValueError

type_synonym ('k, 'v) dict = "('k \<times> 'v) list"

primrec dict_set :: "'k \<Rightarrow> 'v \<Rightarrow> ('k, 'v) dict \<Rightarrow> ('k, 'v) dict" where
  "dict_set k v [] = [(k, v)]"
| "dict_set k v (p # ps) = (if fst p = k then (k, v) # ps else p # dict_set k v ps)"

definition dict_get_default :: "('k, 'v) dict \<Rightarrow> 'k \<Rightarrow> 'v \<Rightarrow> 'v" where
  "dict_get_default d k dflt = (case map_of d k of None \<Rightarrow> dflt | Some v \<Rightarrow> v)"

definition keys :: "('k, 'v) dict \<Rightarrow> 'k list" where
  "keys d = map fst d"

type_synonym posting = "nat \<times> nat"
type_synonym inverted_index = "(string, posting list) dict"
type_synonym boolean_index = "(string, nat list) dict"
type_synonym idf_table = "(string, real) dict"
type_synonym word_count = "(string, nat) dict"
type_synonym doc_scores = "(nat, real) dict"

section \<open>Tokenizer\<close>

definition is_az :: "char \<Rightarrow> bool" where
  "is_az c \<longleftrightarrow> 97 \<le> (of_char c :: nat) \<and> (of_char c :: nat) \<le> 122"

definition lower_char :: "char \<Rightarrow> char" where
  "lower_char c =
     (if 65 \<le> (of_char c :: nat) \<and> (of_char c :: nat) \<le> 90
      then char_of ((of_char c :: nat) + 32) else c)"

definition lower :: "string \<Rightarrow> string" where
  "lower text = map lower_char text"

text \<open>
  \<open>re.findall('[a-z]+', s)\<close>: the maximal runs of lowercase letters, from left to right.
  The first argument is the run being read.
\<close>

fun findall_az :: "string \<Rightarrow> string \<Rightarrow> string list" where
  "findall_az run [] = (if run = [] then [] else [run])"
| "findall_az run (c # cs) =
     (if is_az c then findall_az (run @ [c]) cs
      else if run = [] then findall_az [] cs
      else run # findall_az [] cs)"

definition tokenize :: "string \<Rightarrow> string list" where
  "tokenize text = findall_az [] (lower text)"

section \<open>Collection indexer\<close>

definition build_doc_inverted_index :: "string list \<Rightarrow> (string, nat) dict" where
  "build_doc_inverted_index doc_lst =
     fold (\<lambda>doc_idx inv_idx. dict_set (doc_lst ! doc_idx) doc_idx inv_idx)
       [0..<length doc_lst] []"

text \<open>
  The body of the inner loop of \<open>build_token_inverted_index_with_freq\<close>: append the
  posting to the term's list, or start the list.
\<close>

definition add_posting :: "nat \<Rightarrow> string list \<Rightarrow> string \<Rightarrow> inverted_index \<Rightarrow> inverted_index" where
  "add_posting doc_idx doc_tokenized tok token_inv_idx =
     (case map_of token_inv_idx tok of
        Some ps \<Rightarrow> dict_set tok (ps @ [(doc_idx, count_list doc_tokenized tok)]) token_inv_idx
      | None \<Rightarrow> dict_set tok [(doc_idx, count_list doc_tokenized tok)] token_inv_idx)"

text \<open>
  The outer loop. \<open>set_list\<close> stands for \<open>list(set(...))\<close>; \<open>doc_inv_idx[doc]\<close> raises
  \<open>KeyError\<close> on a document that has no identifier.
\<close>

fun index_docs ::
  "(string list \<Rightarrow> string list) \<Rightarrow> string list \<Rightarrow> (string, nat) dict \<Rightarrow> inverted_index
     \<Rightarrow> error + inverted_index" where
  "index_docs set_list [] doc_inv_idx token_inv_idx = Inr token_inv_idx"
| "index_docs set_list (doc # docs) doc_inv_idx token_inv_idx =
     (case map_of doc_inv_idx doc of
        None \<Rightarrow> Inl KeyError
      | Some doc_idx \<Rightarrow>
          (let doc_tokenized = tokenize doc;
               doc_tokenized_set = set_list doc_tokenized
           in index_docs set_list docs doc_inv_idx
                (fold (add_posting doc_idx doc_tokenized) doc_tokenized_set token_inv_idx)))"

definition build_token_inverted_index_with_freq ::
  "(string list \<Rightarrow> string list) \<Rightarrow> string list \<Rightarrow> (string, nat) dict \<Rightarrow> error + inverted_index" where
  "build_token_inverted_index_with_freq set_list doc_lst doc_inv_idx =
     index_docs set_list doc_lst doc_inv_idx []"

text \<open>What the model asks of an enumeration of a set built from a list.\<close>

definition set_list_ok :: "(string list \<Rightarrow> string list) \<Rightarrow> string list \<Rightarrow> bool" where
  "set_list_ok set_list xs \<longleftrightarrow> distinct (set_list xs) \<and> set (set_list xs) = set xs"

section \<open>Boolean matcher\<close>

text \<open>The loop over the query tokens; \<open>None\<close> is the early \<open>return []\<close>.\<close>

fun intersect_postings :: "string list \<Rightarrow> boolean_index \<Rightarrow> nat set \<Rightarrow> nat set option" where
  "intersect_postings [] token_inv_idx results = Some results"
| "intersect_postings (tok # toks) token_inv_idx results =
     (case map_of token_inv_idx tok of
        None \<Rightarrow> None
      | Some ps \<Rightarrow> intersect_postings toks token_inv_idx (results \<inter> set ps))"

definition boolean_search ::
  "(nat set \<Rightarrow> nat list) \<Rightarrow> string \<Rightarrow> boolean_index \<Rightarrow> nat \<Rightarrow> nat list" where
  "boolean_search to_list query token_inv_idx num_docs =
     (case intersect_postings (tokenize query) token_inv_idx {0..<num_docs} of
        None \<Rightarrow> []
      | Some results \<Rightarrow> to_list results)"

text \<open>
  What the model asks of \<open>list(results)\<close> in \<open>boolean_search\<close>: it lists the members of a set
  of identifiers below \<open>n\<close>, each once.
\<close>

definition enumerates :: "(nat set \<Rightarrow> nat list) \<Rightarrow> nat \<Rightarrow> bool" where
  "enumerates to_list n \<longleftrightarrow>
     (\<forall>S. S \<subseteq> {0..<n} \<longrightarrow> set (to_list S) = S \<and> distinct (to_list S))"

section \<open>Term statistics\<close>

fun idf_terms ::
  "inverted_index \<Rightarrow> nat \<Rightarrow> nat \<Rightarrow> real \<Rightarrow> idf_table \<Rightarrow> error + idf_table" where
  "idf_terms [] n_docs min_df max_df_ratio idf_dict = Inr idf_dict"
| "idf_terms ((term, ps) # rest) n_docs min_df max_df_ratio idf_dict =
     (let df = length ps in
      if df \<ge> min_df then
        (if n_docs = 0 then Inl ZeroDivisionError
         else if real df / real n_docs < max_df_ratio
         then idf_terms rest n_docs min_df max_df_ratio
                (dict_set term (log 2 (real n_docs / real (1 + df))) idf_dict)
         else idf_terms rest n_docs min_df max_df_ratio idf_dict)
      else idf_terms rest n_docs min_df max_df_ratio idf_dict)"

definition compute_idf :: "inverted_index \<Rightarrow> nat \<Rightarrow> nat \<Rightarrow> real \<Rightarrow> error + idf_table" where
  "compute_idf inv_idx n_docs min_df max_df_ratio = idf_terms inv_idx n_docs min_df max_df_ratio []"

text \<open>The first loop of \<open>compute_doc_norms\<close>: the (tf, idf) pairs of every document.\<close>

definition add_doc_word :: "real \<Rightarrow> posting \<Rightarrow> (nat, (nat \<times> real) list) dict \<Rightarrow> (nat, (nat \<times> real) list) dict" where
  "add_doc_word idf_val p doc_dict =
     dict_set (fst p) (dict_get_default doc_dict (fst p) [] @ [(snd p, idf_val)]) doc_dict"

definition collect_doc_words :: "inverted_index \<Rightarrow> idf_table \<Rightarrow> (nat, (nat \<times> real) list) dict" where
  "collect_doc_words index idf =
     fold (\<lambda>(word, idf_val) doc_dict.
             fold (add_doc_word idf_val) (dict_get_default index word []) doc_dict)
       idf []"

definition doc_norm :: "(nat, (nat \<times> real) list) dict \<Rightarrow> nat \<Rightarrow> real" where
  "doc_norm doc_dict doc_id =
     sqrt (fold (\<lambda>(tf, idf_val) norm_sum. norm_sum + (real tf * idf_val) ^ 2)
             (dict_get_default doc_dict doc_id []) 0)"

definition compute_doc_norms :: "inverted_index \<Rightarrow> idf_table \<Rightarrow> nat \<Rightarrow> real list" where
  "compute_doc_norms index idf n_docs =
     map (doc_norm (collect_doc_words index idf)) [0..<n_docs]"

section \<open>Scorer\<close>

fun score_postings ::
  "posting list \<Rightarrow> string \<Rightarrow> nat \<Rightarrow> idf_table \<Rightarrow> doc_scores \<Rightarrow> error + doc_scores" where
  "score_postings [] word qc idf doc_scores = Inr doc_scores"
| "score_postings ((doc, word_frequency) # ps) word qc idf doc_scores =
     (case map_of idf word of
        None \<Rightarrow> Inl KeyError
      | Some idf_val \<Rightarrow>
          score_postings ps word qc idf
            (dict_set doc
               (dict_get_default doc_scores doc 0 + real (word_frequency * qc) * idf_val ^ 2)
               doc_scores))"

fun score_words ::
  "inverted_index \<Rightarrow> word_count \<Rightarrow> idf_table \<Rightarrow> doc_scores \<Rightarrow> error + doc_scores" where
  "score_words [] query_word_counts idf doc_scores = Inr doc_scores"
| "score_words ((word, word_docs) # rest) query_word_counts idf doc_scores =
     (case map_of query_word_counts word of
        None \<Rightarrow> score_words rest query_word_counts idf doc_scores
      | Some qc \<Rightarrow>
          (case score_postings word_docs word qc idf doc_scores of
             Inl e \<Rightarrow> Inl e
           | Inr doc_scores' \<Rightarrow> score_words rest query_word_counts idf doc_scores'))"

definition accumulate_dot_scores ::
  "word_count \<Rightarrow> inverted_index \<Rightarrow> idf_table \<Rightarrow> error + doc_scores" where
  "accumulate_dot_scores query_word_counts index idf = score_words index query_word_counts idf []"

section \<open>Ranker\<close>

text \<open>\<open>dict(Counter(tokens))\<close>: the tokens in first-occurrence order with their counts.\<close>

definition Counter :: "string list \<Rightarrow> word_count" where
  "Counter tokens = fold (\<lambda>tok d. dict_set tok (dict_get_default d tok 0 + 1) d) tokens []"

fun query_norm_sum :: "string list \<Rightarrow> idf_table \<Rightarrow> word_count \<Rightarrow> real \<Rightarrow> error + real" where
  "query_norm_sum [] idf query_w_counts query_norm_m = Inr query_norm_m"
| "query_norm_sum (token # rest) idf query_w_counts query_norm_m =
     (case map_of idf token of
        None \<Rightarrow> query_norm_sum rest idf query_w_counts query_norm_m
      | Some idf_val \<Rightarrow>
          (case map_of query_w_counts token of
             None \<Rightarrow> Inl KeyError
           | Some c \<Rightarrow>
               query_norm_sum rest idf query_w_counts
                 (query_norm_m + (idf_val * real c) ^ 2)))"

fun cosine_scores ::
  "doc_scores \<Rightarrow> real \<Rightarrow> real list \<Rightarrow> (real \<times> nat) list \<Rightarrow> error + (real \<times> nat) list" where
  "cosine_scores [] query_norm_m doc_norms results = Inr results"
| "cosine_scores ((doc, num) # rest) query_norm_m doc_norms results =
     (if doc \<ge> length doc_norms then Inl IndexError
      else if sqrt query_norm_m * doc_norms ! doc = 0 then Inl ZeroDivisionError
      else cosine_scores rest query_norm_m doc_norms
             (results @ [(num / (sqrt query_norm_m * doc_norms ! doc), doc)]))"

text \<open>
  \<open>sorted(results, key=lambda x: x[0], reverse=True)\<close> is a stable sort by descending
  score: entries with equal scores keep the order they had.
\<close>

definition sorted_desc :: "(real \<times> nat) list \<Rightarrow> (real \<times> nat) list" where
  "sorted_desc results = sort_key (\<lambda>x. - fst x) results"

definition index_search ::
  "string \<Rightarrow> inverted_index \<Rightarrow> idf_table \<Rightarrow> real list
     \<Rightarrow> (word_count \<Rightarrow> inverted_index \<Rightarrow> idf_table \<Rightarrow> error + doc_scores)
     \<Rightarrow> (string \<Rightarrow> string list) \<Rightarrow> error + (real \<times> nat) list" where
  "index_search query index idf doc_norms score_func tokenizer =
     (let tokens = tokenizer (lower query);
          query_w_counts = Counter tokens
      in case query_norm_sum tokens idf query_w_counts 0 of
           Inl e \<Rightarrow> Inl e
         | Inr query_norm_m \<Rightarrow>
             (case score_func query_w_counts index idf of
                Inl e \<Rightarrow> Inl e
              | Inr num_vals \<Rightarrow>
                  (case cosine_scores num_vals query_norm_m doc_norms [] of
                     Inl e \<Rightarrow> Inl e
                   | Inr results \<Rightarrow> Inr (sorted_desc results))))"

definition get_doc_rankings ::
  "(string list \<Rightarrow> string list) \<Rightarrow> string \<Rightarrow> string list \<Rightarrow> nat \<Rightarrow> error + nat list" where
  "get_doc_rankings set_list query doc_lst num_docs =
     (let doc_inv_idx = build_doc_inverted_index doc_lst in
      case build_token_inverted_index_with_freq set_list doc_lst doc_inv_idx of
        Inl e \<Rightarrow> Inl e
      | Inr tok_inv_idx \<Rightarrow>
          (case compute_idf tok_inv_idx (length doc_lst) 0 1 of
             Inl e \<Rightarrow> Inl e
           | Inr idf_list \<Rightarrow>
               (let doc_norms = compute_doc_norms tok_inv_idx idf_list (length doc_lst) in
                case index_search (lower query) tok_inv_idx idf_list doc_norms
                       accumulate_dot_scores tokenize of
                  Inl e \<Rightarrow> Inl e
                | Inr results \<Rightarrow> Inr (map snd (take num_docs results)))))"

section \<open>Reference notions\<close>

text \<open>
  The documents that share a term with a set of query terms according to the index: those
  listed in the postings of an index entry whose term is among the query terms.
\<close>

definition shared_docs :: "inverted_index \<Rightarrow> string set \<Rightarrow> nat set" where
  "shared_docs index terms =
     (\<Union>(word, word_docs) \<in> set index. if word \<in> terms then fst ` set word_docs else {})"


text \<open>
  The dot product of section 4.5 of the specification, written as a sum: over the index
  entries whose term is in the query and in the IDF table, and over their postings for
  document \<open>d\<close>, of \<open>document_term_freq * query_term_freq * idf^2\<close>.
\<close>

definition term_weight :: "word_count \<Rightarrow> idf_table \<Rightarrow> nat \<Rightarrow> string \<times> posting list \<Rightarrow> real" where
  "term_weight q idf d e =
     (case map_of q (fst e) of
        None \<Rightarrow> 0
      | Some qc \<Rightarrow>
          (case map_of idf (fst e) of
             None \<Rightarrow> 0
           | Some v \<Rightarrow> (\<Sum>p\<leftarrow>snd e. if fst p = d then real (snd p * qc) * v ^ 2 else 0)))"

definition dot_product :: "word_count \<Rightarrow> inverted_index \<Rightarrow> idf_table \<Rightarrow> nat \<Rightarrow> real" where
  "dot_product q index idf d = (\<Sum>e\<leftarrow>index. term_weight q idf d e)"

text \<open>
  Every index entry whose term is in the query and has postings has its term in the IDF
  table: the condition under which the scorer's lookups all succeed.
\<close>

definition matched_terms_in_idf :: "inverted_index \<Rightarrow> word_count \<Rightarrow> idf_table \<Rightarrow> bool" where
  "matched_terms_in_idf index q idf \<longleftrightarrow>
     (\<forall>e \<in> set index. map_of q (fst e) \<noteq> None \<longrightarrow> snd e \<noteq> [] \<longrightarrow> map_of idf (fst e) \<noteq> None)"


text \<open>
  The posting list of a term as the specification describes it: one pair (identifier,
  frequency) for every document of the sequence, in order, whose tokens contain the term.
\<close>

definition postings_of :: "string list \<Rightarrow> (string, nat) dict \<Rightarrow> string \<Rightarrow> posting list" where
  "postings_of doc_lst doc_inv_idx tok =
     map (\<lambda>doc. (dict_get_default doc_inv_idx doc 0, count_list (tokenize doc) tok))
       (filter (\<lambda>doc. tok \<in> set (tokenize doc)) doc_lst)"



section \<open>The example collection\<close>






section \<open>Latent semantic engine: nearest documents\<close>

text \<open>
  \<open>closest_projects_to_query\<close>. The first line of the function,
  \<open>normalize(np.dot(query_vec, words_compressed_normed)).squeeze()\<close>, is library code that
  yields the query embedding, a vector; it is the parameter \<open>project\<close>. The product
  \<open>docs_compressed_normed.dot(new_query_vec)\<close> is one dot product per document row and
  raises \<open>ValueError\<close> when a row and the vector differ in length. \<open>np.argsort\<close> is not a
  stable sort, so it is a parameter too, with its contract \<open>argsort_ok\<close>: a permutation of
  the indices that puts the values in ascending order. \<open>stable_argsort\<close> is one such
  function.
\<close>

definition dot :: "real list \<Rightarrow> real list \<Rightarrow> real" where
  "dot xs ys = (\<Sum>p\<leftarrow>zip xs ys. fst p * snd p)"

definition mat_vec :: "real list list \<Rightarrow> real list \<Rightarrow> error + real list" where
  "mat_vec m v =
     (if list_all (\<lambda>row. length row = length v) m then Inr (map (\<lambda>row. dot row v) m)
      else Inl ValueError)"

definition closest_projects_to_query ::
  "(real list \<Rightarrow> nat list) \<Rightarrow> ('q \<Rightarrow> 'w \<Rightarrow> real list) \<Rightarrow> real list list \<Rightarrow> 'w \<Rightarrow> 'q \<Rightarrow> nat
     \<Rightarrow> error + nat list" where
  "closest_projects_to_query argsort project docs_compressed_normed words_compressed_normed
       query_vec k =
     (let new_query_vec = project query_vec words_compressed_normed in
      case mat_vec docs_compressed_normed new_query_vec of
        Inl e \<Rightarrow> Inl e
      | Inr sims \<Rightarrow> Inr (take (k + 1) (argsort (map uminus sims))))"


definition stable_argsort :: "real list \<Rightarrow> nat list" where
  "stable_argsort xs = sort_key (\<lambda>i. xs ! i) [0..<length xs]"

section \<open>Dictionaries\<close>

lemma map_of_dict_set: "map_of (dict_set k v d) = (map_of d)(k \<mapsto> v)"
  by (induction d) auto

lemma keys_dict_set:
  "keys (dict_set k v d) = (if k \<in> set (keys d) then keys d else keys d @ [k])"
  by (induction d) (auto simp: keys_def)

lemma set_keys_dict_set: "set (keys (dict_set k v d)) = insert k (set (keys d))"
  by (auto simp: keys_dict_set)

lemma distinct_keys_dict_set: "distinct (keys (dict_set k v d)) = distinct (keys d)"
  by (auto simp: keys_dict_set)

lemma map_of_eq_None_keys: "map_of d k = None \<longleftrightarrow> k \<notin> set (keys d)"
  by (simp add: keys_def map_of_eq_None_iff)

section \<open>Identifier assignment\<close>

lemma build_doc_inverted_index_snoc:
  "build_doc_inverted_index (docs @ [x]) = dict_set x (length docs) (build_doc_inverted_index docs)"
proof -
  have "fold (\<lambda>i d. dict_set ((docs @ [x]) ! i) i d) [0..<length docs] []
      = fold (\<lambda>i d. dict_set (docs ! i) i d) [0..<length docs] []"
    by (rule fold_cong) (auto simp: nth_append)
  then show ?thesis
    by (simp add: build_doc_inverted_index_def)
qed

lemma build_doc_inverted_index_Nil: "build_doc_inverted_index [] = []"
  by (simp add: build_doc_inverted_index_def)

lemma keys_build_doc_inverted_index:
  "distinct (keys (build_doc_inverted_index docs)) \<and> set (keys (build_doc_inverted_index docs)) = set docs"
  by (induction docs rule: rev_induct)
     (auto simp: build_doc_inverted_index_Nil build_doc_inverted_index_snoc keys_def[of "[]"]
         set_keys_dict_set distinct_keys_dict_set)

lemma map_of_build_doc_inverted_index:
  "i < length docs \<Longrightarrow> docs ! i \<notin> set (drop (Suc i) docs)
     \<Longrightarrow> map_of (build_doc_inverted_index docs) (docs ! i) = Some i"
proof (induction docs rule: rev_induct)
  case Nil
  then show ?case by simp
next
  case (snoc x xs)
  show ?case
  proof (cases "i < length xs")
    case True
    with snoc.prems have "xs ! i \<noteq> x" "xs ! i \<notin> set (drop (Suc i) xs)"
      by (auto simp: nth_append)
    with True snoc.IH show ?thesis
      by (simp add: build_doc_inverted_index_snoc map_of_dict_set nth_append)
  next
    case False
    with snoc.prems have "i = length xs" by simp
    then show ?thesis
      by (simp add: build_doc_inverted_index_snoc map_of_dict_set)
  qed
qed

text \<open>
  C4, as the claim states it: the identifier of a text is the position of its first
  occurrence. In \<open>["a", "b", "a"]\<close> the text \<open>"a"\<close> first occurs at position 0, and the
  loop, which stores every position under the text, leaves it with identifier 2.
\<close>

theorem build_doc_inverted_index_first_occurrence_counterexample:
  "[''a'', ''b'', ''a''] ! 0 = ''a'' \<and>
   map_of (build_doc_inverted_index [''a'', ''b'', ''a'']) ''a'' = Some 2"
  by (simp add: build_doc_inverted_index_def upt_rec)

text \<open>
  C4, amended: the identifier of a text is the position of its last occurrence in the
  sequence; every text of the sequence is a key of the mapping, exactly once. When no
  text repeats, each document's identifier is its position.
\<close>

theorem build_doc_inverted_index_last_occurrence:
  assumes "i < length docs" and "docs ! i \<notin> set (drop (Suc i) docs)"
  shows "map_of (build_doc_inverted_index docs) (docs ! i) = Some i \<and>
         distinct (keys (build_doc_inverted_index docs)) \<and>
         set (keys (build_doc_inverted_index docs)) = set docs"
  using assms keys_build_doc_inverted_index map_of_build_doc_inverted_index by blast

theorem build_doc_inverted_index_last_occurrence_witness:
  "(2::nat) < length [''a'', ''b'', ''a''] \<and>
   [''a'', ''b'', ''a''] ! 2 \<notin> set (drop (Suc 2) [''a'', ''b'', ''a'']) \<and>
   map_of (build_doc_inverted_index [''a'', ''b'', ''a'']) ([''a'', ''b'', ''a''] ! 2) = Some 2 \<and>
   distinct (keys (build_doc_inverted_index [''a'', ''b'', ''a''])) \<and>
   set (keys (build_doc_inverted_index [''a'', ''b'', ''a''])) = set [''a'', ''b'', ''a'']"
  using build_doc_inverted_index_last_occurrence [of 2 "[''a'', ''b'', ''a'']"]
  by simp

section \<open>The scorer and a pruned IDF table\<close>

lemma score_postings_error:
  "score_postings ps word qc idf doc_scores = Inl e \<Longrightarrow> e = KeyError"
  by (induction ps arbitrary: doc_scores) (auto split: option.splits)

lemma score_postings_missing_idf:
  "map_of idf word = None \<Longrightarrow> ps \<noteq> [] \<Longrightarrow> score_postings ps word qc idf doc_scores = Inl KeyError"
  by (cases ps) auto

lemma score_words_missing_idf:
  "(word, ps) \<in> set index \<Longrightarrow> ps \<noteq> [] \<Longrightarrow> map_of query_word_counts word = Some qc
     \<Longrightarrow> map_of idf word = None
     \<Longrightarrow> score_words index query_word_counts idf doc_scores = Inl KeyError"
proof (induction index arbitrary: doc_scores)
  case Nil
  then show ?case by simp
next
  case (Cons p index)
  obtain w wd where p: "p = (w, wd)" by (cases p)
  show ?case
  proof (cases "p = (word, ps)")
    case True
    with Cons.prems show ?thesis
      by (simp add: score_postings_missing_idf)
  next
    case False
    with Cons.prems have "(word, ps) \<in> set index" by simp
    with Cons have IH: "\<And>s. score_words index query_word_counts idf s = Inl KeyError"
      by blast
    show ?thesis
      by (auto simp: p IH split: option.splits sum.splits dest: score_postings_error)
  qed
qed

text \<open>
  Whenever a query term has a non-empty posting list in the index and no entry in the IDF
  table, the scorer raises \<open>KeyError\<close>.
\<close>

lemma accumulate_dot_scores_pruned_term:
  "(word, ps) \<in> set index \<Longrightarrow> ps \<noteq> [] \<Longrightarrow> map_of query_word_counts word = Some qc
     \<Longrightarrow> map_of idf word = None
     \<Longrightarrow> accumulate_dot_scores query_word_counts index idf = Inl KeyError"
  by (simp add: accumulate_dot_scores_def score_words_missing_idf)

text \<open>
  C1: a query term that is in the index and has been pruned from the IDF table is to be
  skipped. The scorer looks \<open>idf[word]\<close> up for every posting of a query term: for the
  query counts \<open>{"cat": 1}\<close>, the index \<open>{"cat": [(0, 1)]}\<close> and an empty IDF table it
  raises \<open>KeyError\<close> and returns no scores.
\<close>

theorem accumulate_dot_scores_pruned_term_fails:
  "accumulate_dot_scores [(''cat'', 1)] [(''cat'', [(0, 1)])] [] = Inl KeyError"
  by (simp add: accumulate_dot_scores_def)

text \<open>
  The end-to-end path meets the same lookup: \<open>get_doc_rankings\<close> computes the IDF table
  with \<open>max_df_ratio = 1\<close>, the test \<open>df / n_docs < 1\<close> prunes a term that occurs in every
  document, and a query for such a term fails.
\<close>

lemma get_doc_rankings_pruned_term_fails:
  "get_doc_rankings remdups ''cat'' [''the cat''] 1 = Inl KeyError"
  by (simp add: get_doc_rankings_def build_token_inverted_index_with_freq_def
      build_doc_inverted_index_def upt_rec tokenize_def lower_def lower_char_def is_az_def
      add_posting_def compute_idf_def compute_doc_norms_def index_search_def Counter_def
      dict_get_default_def accumulate_dot_scores_def)

section \<open>Boolean search\<close>

lemma enumerates_sorted_list_of_set: "enumerates sorted_list_of_set n"
  unfolding enumerates_def
proof (intro allI impI)
  fix S :: "nat set"
  assume "S \<subseteq> {0..<n}"
  then have "finite S" by (rule finite_subset) simp
  then show "set (sorted_list_of_set S) = S \<and> distinct (sorted_list_of_set S)" by simp
qed

lemma intersect_postings_subset:
  "intersect_postings toks idx R = Some R' \<Longrightarrow> R' \<subseteq> R"
  by (induction toks arbitrary: R) (auto split: option.splits)

lemma boolean_search_result:
  "boolean_search to_list q idx n = [] \<or>
   (\<exists>R. R \<subseteq> {0..<n} \<and> boolean_search to_list q idx n = to_list R)"
proof (cases "intersect_postings (tokenize q) idx {0..<n}")
  case None
  then show ?thesis by (simp add: boolean_search_def)
next
  case (Some R)
  then have "R \<subseteq> {0..<n}" by (rule intersect_postings_subset)
  moreover from Some have "boolean_search to_list q idx n = to_list R"
    by (simp add: boolean_search_def)
  ultimately show ?thesis by blast
qed

text \<open>
  C7: the result of \<open>boolean_search(q, idx, n)\<close> has at most \<open>n\<close> entries and every
  returned identifier lies in \<open>[0, n)\<close>.
\<close>

theorem boolean_search_bounded:
  assumes "enumerates to_list n"
  shows "length (boolean_search to_list q idx n) \<le> n \<and>
         set (boolean_search to_list q idx n) \<subseteq> {0..<n}"
proof -
  consider "boolean_search to_list q idx n = []"
    | R where "R \<subseteq> {0..<n}" and "boolean_search to_list q idx n = to_list R"
    using boolean_search_result [of to_list q idx n] by blast
  then show ?thesis
  proof cases
    case 1
    then show ?thesis by simp
  next
    case (2 R)
    from assms 2(1) have e: "set (to_list R) = R" "distinct (to_list R)"
      by (simp_all add: enumerates_def)
    then have "length (to_list R) = card R"
      using distinct_card by fastforce
    also have "\<dots> \<le> card {0..<n}"
      using 2(1) by (intro card_mono) simp_all
    finally have "length (to_list R) \<le> n" by simp
    moreover have "set (to_list R) \<subseteq> {0..<n}"
      using e(1) 2(1) by simp
    ultimately show ?thesis using 2(2) by simp
  qed
qed

theorem boolean_search_bounded_witness:
  "enumerates sorted_list_of_set 3 \<and>
   length (boolean_search sorted_list_of_set ''cat sat''
      [(''the'', [0, 1]), (''cat'', [0]), (''sat'', [0, 1]), (''dog'', [1])] 3) \<le> 3 \<and>
   set (boolean_search sorted_list_of_set ''cat sat''
      [(''the'', [0, 1]), (''cat'', [0]), (''sat'', [0, 1]), (''dog'', [1])] 3) \<subseteq> {0..<3}"
  using boolean_search_bounded [where to_list = sorted_list_of_set and n = 3
      and q = "''cat sat''"
      and idx = "[(''the'', [0, 1]), (''cat'', [0]), (''sat'', [0, 1]), (''dog'', [1])]"]
    enumerates_sorted_list_of_set [of 3]
  by blast

section \<open>Queries without tokens\<close>

lemma of_char_lower_char:
  "(of_char (lower_char c) :: nat) = (if 65 \<le> (of_char c :: nat) \<and> (of_char c :: nat) \<le> 90 then of_char c + 32 else of_char c)"
  by (simp add: lower_char_def)

lemma lower_char_idem: "lower_char (lower_char c) = lower_char c"
  by (simp add: lower_char_def)

lemma lower_idem: "lower (lower q) = lower q"
  by (simp add: lower_def lower_char_idem)

lemma tokenize_lower: "tokenize (lower q) = tokenize q"
  by (simp add: tokenize_def lower_idem)

lemma score_words_empty_query: "score_words index [] idf s = Inr s"
  by (induction index) auto

lemma index_search_no_tokens:
  "tokenizer (lower query) = [] \<Longrightarrow>
   index_search query index idf doc_norms accumulate_dot_scores tokenizer = Inr []"
  by (simp add: index_search_def Counter_def accumulate_dot_scores_def
      score_words_empty_query sorted_desc_def)

text \<open>
  C6: for a query without tokens, \<open>boolean_search\<close> returns the whole universe
  \<open>{0, ..., n - 1}\<close> (each identifier once) and \<open>index_search\<close> returns the empty ranking.
\<close>

theorem empty_query_degrades:
  assumes "tokenize query = []" and "enumerates to_list n"
  shows "set (boolean_search to_list query token_inv_idx n) = {0..<n} \<and>
         distinct (boolean_search to_list query token_inv_idx n) \<and>
         index_search query index idf doc_norms accumulate_dot_scores tokenize = Inr []"
  using assms
  by (simp add: boolean_search_def enumerates_def index_search_no_tokens tokenize_lower)

theorem empty_query_degrades_witness:
  "tokenize ''42 -- 7!'' = [] \<and> enumerates sorted_list_of_set 3 \<and>
   set (boolean_search sorted_list_of_set ''42 -- 7!'' [(''cat'', [0])] 3) = {0..<3} \<and>
   distinct (boolean_search sorted_list_of_set ''42 -- 7!'' [(''cat'', [0])] 3) \<and>
   index_search ''42 -- 7!'' [(''cat'', [(0, 1)])] [(''cat'', 1)] [1] accumulate_dot_scores tokenize = Inr []"
proof -
  have t: "tokenize ''42 -- 7!'' = []"
    by (simp add: tokenize_def lower_def lower_char_def is_az_def)
  show ?thesis
    using empty_query_degrades [where query = "''42 -- 7!''" and to_list = sorted_list_of_set
        and n = 3 and token_inv_idx = "[(''cat'', [0])]" and index = "[(''cat'', [(0, 1)])]"
        and idf = "[(''cat'', 1)]" and doc_norms = "[1]"]
      t enumerates_sorted_list_of_set [of 3]
    by blast
qed

section \<open>Which documents the scorer touches\<close>

lemma shared_docs_Nil: "shared_docs [] terms = {}"
  by (simp add: shared_docs_def)

lemma shared_docs_Cons:
  "shared_docs ((w, ps) # index) terms =
     (if w \<in> terms then fst ` set ps else {}) \<union> shared_docs index terms"
  by (simp add: shared_docs_def)

lemma map_of_Some_keys: "map_of d k = Some v \<Longrightarrow> k \<in> set (keys d)"
  by (auto simp: keys_def dest: map_of_SomeD intro: rev_image_eqI)

lemma score_postings_keys:
  "score_postings ps word qc idf s = Inr s' \<Longrightarrow>
     set (keys s') = set (keys s) \<union> fst ` set ps \<and> (distinct (keys s) \<longrightarrow> distinct (keys s'))"
proof (induction ps arbitrary: s)
  case Nil
  then show ?case by simp
next
  case (Cons p ps)
  obtain d tf where p: "p = (d, tf)" by (cases p)
  from Cons.prems obtain v where v: "map_of idf word = Some v"
    by (auto simp: p split: option.splits)
  let ?s1 = "dict_set d (dict_get_default s d 0 + real (tf * qc) * v ^ 2) s"
  from Cons.prems v have "score_postings ps word qc idf ?s1 = Inr s'"
    by (simp add: p)
  from Cons.IH [OF this] show ?case
    by (auto simp: p set_keys_dict_set distinct_keys_dict_set)
qed

lemma score_words_keys:
  "score_words index q idf s = Inr s' \<Longrightarrow>
     set (keys s') = set (keys s) \<union> shared_docs index (set (keys q)) \<and>
     (distinct (keys s) \<longrightarrow> distinct (keys s'))"
proof (induction index arbitrary: s)
  case Nil
  then show ?case by (simp add: shared_docs_Nil)
next
  case (Cons p index)
  obtain w ps where p: "p = (w, ps)" by (cases p)
  show ?case
  proof (cases "map_of q w")
    case None
    then have "w \<notin> set (keys q)" by (simp add: map_of_eq_None_keys)
    moreover from Cons.prems None have "score_words index q idf s = Inr s'"
      by (simp add: p)
    ultimately show ?thesis
      using Cons.IH [of s] by (simp add: p shared_docs_Cons)
  next
    case (Some qc)
    then have w: "w \<in> set (keys q)" by (rule map_of_Some_keys)
    from Cons.prems Some obtain s1 where
      s1: "score_postings ps w qc idf s = Inr s1" and rest: "score_words index q idf s1 = Inr s'"
      by (auto simp: p split: sum.splits)
    from score_postings_keys [OF s1] Cons.IH [OF rest] w show ?thesis
      by (auto simp: p shared_docs_Cons)
  qed
qed

text \<open>The scorer returns when every matched term is in the IDF table.\<close>

lemma score_postings_total:
  "map_of idf word = Some v \<Longrightarrow> \<exists>s'. score_postings ps word qc idf s = Inr s'"
  by (induction ps arbitrary: s) auto



lemma dict_get_default_dict_set:
  "dict_get_default (dict_set k v d) k' dflt = (if k' = k then v else dict_get_default d k' dflt)"
  by (simp add: dict_get_default_def map_of_dict_set)













section \<open>The value of a score\<close>

lemma score_postings_value:
  "map_of idf word = Some v \<Longrightarrow> score_postings ps word qc idf s = Inr s' \<Longrightarrow>
     dict_get_default s' d 0
       = dict_get_default s d 0 + (\<Sum>p\<leftarrow>ps. if fst p = d then real (snd p * qc) * v ^ 2 else 0)"
proof (induction ps arbitrary: s)
  case Nil
  then show ?case by simp
next
  case (Cons p ps)
  obtain d' tf where p: "p = (d', tf)" by (cases p)
  let ?s1 = "dict_set d' (dict_get_default s d' 0 + real (tf * qc) * v ^ 2) s"
  from Cons.prems have "score_postings ps word qc idf ?s1 = Inr s'"
    by (simp add: p)
  from Cons.IH [OF Cons.prems(1) this] show ?case
    by (simp add: p dict_get_default_dict_set)
qed

lemma score_postings_Nil_or_idf:
  "score_postings ps word qc idf s = Inr s' \<Longrightarrow> ps = [] \<or> map_of idf word \<noteq> None"
  by (cases ps) (auto split: option.splits)

lemma score_words_value:
  "score_words index q idf s = Inr s' \<Longrightarrow>
     dict_get_default s' d 0 = dict_get_default s d 0 + dot_product q index idf d"
proof (induction index arbitrary: s)
  case Nil
  then show ?case by (simp add: dot_product_def)
next
  case (Cons e index)
  obtain w ps where e: "e = (w, ps)" by (cases e)
  show ?case
  proof (cases "map_of q w")
    case None
    with Cons.prems have "score_words index q idf s = Inr s'" by (simp add: e)
    from Cons.IH [OF this] None show ?thesis
      by (simp add: e dot_product_def term_weight_def)
  next
    case (Some qc)
    with Cons.prems obtain s1 where
      s1: "score_postings ps w qc idf s = Inr s1" and rest: "score_words index q idf s1 = Inr s'"
      by (auto simp: e split: sum.splits)
    show ?thesis
    proof (cases "map_of idf w")
      case None
      with s1 have "ps = []" using score_postings_Nil_or_idf by blast
      with s1 have "s1 = s" by simp
      with Cons.IH [OF rest] Some None show ?thesis
        by (simp add: e dot_product_def term_weight_def)
    next
      case (Some v)
      from score_postings_value [OF Some s1, of d] Cons.IH [OF rest] Some \<open>map_of q w = Some qc\<close>
      show ?thesis
        by (simp add: e dot_product_def term_weight_def)
    qed
  qed
qed

lemma sum_list_map_update:
  fixes f :: "'a \<Rightarrow> real"
  shows "i < length xs \<Longrightarrow>
    sum_list (map f (xs[i := y])) = sum_list (map f xs) - f (xs ! i) + f y"
  by (induction xs arbitrary: i) (auto split: nat.splits)

section \<open>Monotonicity of the scorer\<close>

lemma matchedD:
  "\<forall>e \<in> set index. map_of q (fst e) \<noteq> None \<longrightarrow> snd e \<noteq> [] \<longrightarrow> map_of idf (fst e) \<noteq> None
    \<Longrightarrow> (w, ps) \<in> set index \<Longrightarrow> map_of q w \<noteq> None \<longrightarrow> ps \<noteq> [] \<longrightarrow> map_of idf w \<noteq> None"
  by (drule bspec, assumption) simp

lemma shared_docsI:
  "(w, ps) \<in> set index \<Longrightarrow> w \<in> terms \<Longrightarrow> (d, tf) \<in> set ps \<Longrightarrow> d \<in> shared_docs index terms"
proof (induction index)
  case Nil
  then show ?case by simp
next
  case (Cons e index)
  obtain w' ps' where e: "e = (w', ps')" by (cases e)
  show ?case
  proof (cases "e = (w, ps)")
    case True
    with Cons.prems e show ?thesis
      by (simp add: shared_docs_Cons rev_image_eqI)
  next
    case False
    with Cons have "d \<in> shared_docs index terms" by simp
    then show ?thesis by (simp add: e shared_docs_Cons)
  qed
qed

lemma score_words_succeeds:
  "(\<exists>s'. score_words index q idf s = Inr s') \<longleftrightarrow> matched_terms_in_idf index q idf"
  unfolding matched_terms_in_idf_def
proof (induction index arbitrary: s)
  case Nil
  then show ?case by simp
next
  case (Cons e index)
  obtain w ps where e: "e = (w, ps)" by (cases e)
  show ?case
  proof (cases "map_of q w")
    case None
    with Cons.IH [of s] show ?thesis by (simp add: e)
  next
    case (Some qc)
    show ?thesis
    proof (cases "ps = [] \<or> map_of idf w \<noteq> None")
      case True
      then obtain s1 where s1: "score_postings ps w qc idf s = Inr s1"
        using score_postings_total [of idf w _ ps qc s] by (cases ps) auto
      with Some Cons.IH [of s1] True show ?thesis by (auto simp: e)
    next
      case False
      then have "score_postings ps w qc idf s = Inl KeyError"
        by (simp add: score_postings_missing_idf)
      with Some False show ?thesis by (auto simp: e)
    qed
  qed
qed

lemma dot_product_update:
  assumes i: "i < length index" and e: "index ! i = (word, ps)"
    and j: "j < length ps" and p: "ps ! j = (doc, tf)"
    and qc: "map_of q word = Some qc" and v: "map_of idf word = Some v"
  shows "dot_product q (index[i := (word, ps[j := (doc, Suc tf)])]) idf doc
           = dot_product q index idf doc + real qc * v ^ 2"
proof -
  let ?f = "\<lambda>p. if fst p = doc then real (snd p * qc) * v ^ 2 else 0"
  have inner: "sum_list (map ?f (ps[j := (doc, Suc tf)])) = sum_list (map ?f ps) + real qc * v ^ 2"
    using sum_list_map_update [OF j, of ?f "(doc, Suc tf)"] p
    by (simp add: algebra_simps)
  have "term_weight q idf doc (word, ps[j := (doc, Suc tf)])
          = term_weight q idf doc (word, ps) + real qc * v ^ 2"
    using inner by (simp add: term_weight_def qc v)
  then show ?thesis
    using sum_list_map_update [OF i, of "term_weight q idf doc" "(word, ps[j := (doc, Suc tf)])"] e
    by (simp add: dot_product_def)
qed

text \<open>
  C8: raising by one the stored frequency of a query term in a document that has a posting
  for it does not lower that document's accumulated score. (The new score is the old one
  plus \<open>query_term_freq * idf^2\<close>.)
\<close>

theorem accumulate_dot_scores_monotone:
  assumes i: "i < length index" and e: "index ! i = (word, ps)"
    and j: "j < length ps" and p: "ps ! j = (doc, tf)"
    and qw: "word \<in> set (keys q)"
    and s: "accumulate_dot_scores q index idf = Inr s"
  shows "\<exists>s' x x'. accumulate_dot_scores q (index[i := (word, ps[j := (doc, Suc tf)])]) idf = Inr s'
           \<and> map_of s doc = Some x \<and> map_of s' doc = Some x' \<and> x \<le> x'"
proof -
  let ?ps' = "ps[j := (doc, Suc tf)]"
  let ?index' = "index[i := (word, ?ps')]"
  from qw obtain qc where qc: "map_of q word = Some qc"
    by (cases "map_of q word") (simp_all add: map_of_eq_None_keys)
  from i e have mem: "(word, ps) \<in> set index" by (metis nth_mem)
  from j have ne: "ps \<noteq> []" by auto
  from s have run: "score_words index q idf [] = Inr s"
    by (simp add: accumulate_dot_scores_def)
  then have ok: "matched_terms_in_idf index q idf"
    using score_words_succeeds [of index q idf "[]"] by blast
  from ok mem have "map_of q word \<noteq> None \<longrightarrow> ps \<noteq> [] \<longrightarrow> map_of idf word \<noteq> None"
    unfolding matched_terms_in_idf_def by (rule matchedD)
  with qc ne obtain v where v: "map_of idf word = Some v" by auto
  have sub: "set ?index' \<subseteq> insert (word, ?ps') (set index)"
    by (rule set_update_subset_insert)
  have "matched_terms_in_idf ?index' q idf"
    unfolding matched_terms_in_idf_def
  proof (rule ballI)
    fix e assume "e \<in> set ?index'"
    with sub have "e = (word, ?ps') \<or> e \<in> set index" by blast
    then show "map_of q (fst e) \<noteq> None \<longrightarrow> snd e \<noteq> [] \<longrightarrow> map_of idf (fst e) \<noteq> None"
    proof
      assume "e = (word, ?ps')"
      with v show ?thesis by simp
    next
      assume "e \<in> set index"
      with ok show ?thesis unfolding matched_terms_in_idf_def by (rule bspec)
    qed
  qed
  then obtain s' where run': "score_words ?index' q idf [] = Inr s'"
    using score_words_succeeds [of ?index' q idf "[]"] by blast
  have val: "dict_get_default s' doc 0 = dict_get_default s doc 0 + real qc * v ^ 2"
    using score_words_value [OF run, of doc] score_words_value [OF run', of doc]
      dot_product_update [OF i e j p qc v]
    by simp
  from j p have "(doc, tf) \<in> set ps" by (metis nth_mem)
  with mem qw have "doc \<in> shared_docs index (set (keys q))"
    by (rule shared_docsI)
  with score_words_keys [OF run] have "doc \<in> set (keys s)" by simp
  then obtain x where x: "map_of s doc = Some x"
    by (cases "map_of s doc") (simp_all add: map_of_eq_None_keys)
  from i have m1: "(word, ?ps') \<in> set ?index'" by (simp add: set_update_memI)
  from j have m2: "(doc, Suc tf) \<in> set ?ps'" by (simp add: set_update_memI)
  have "doc \<in> shared_docs ?index' (set (keys q))"
    using m1 qw m2 by (rule shared_docsI)
  with score_words_keys [OF run'] have "doc \<in> set (keys s')" by simp
  then obtain x' where x': "map_of s' doc = Some x'"
    by (cases "map_of s' doc") (simp_all add: map_of_eq_None_keys)
  from val x x' have "x' = x + real qc * v ^ 2"
    by (simp add: dict_get_default_def)
  then have "x \<le> x'" by simp
  with run' x x' show ?thesis
    by (simp add: accumulate_dot_scores_def)
qed



theorem accumulate_dot_scores_monotone_witness:
  "(0::nat) < length [(''cat'', [(0, 1), (2, 3)])] \<and>
   [(''cat'', [(0, 1), (2, 3)])] ! 0 = (''cat'', [(0, 1), (2, 3)]) \<and>
   (1::nat) < length [(0::nat, 1::nat), (2, 3)] \<and> [(0::nat, 1::nat), (2, 3)] ! 1 = (2, 3) \<and>
   ''cat'' \<in> set (keys [(''cat'', 2::nat)]) \<and>
   accumulate_dot_scores [(''cat'', 2)] [(''cat'', [(0, 1), (2, 3)])] [(''cat'', 1)]
     = Inr [(0, 2), (2, 6)] \<and>
   (\<exists>s' x x'. accumulate_dot_scores [(''cat'', 2)]
        ([(''cat'', [(0, 1), (2, 3)])][0 := (''cat'', [(0, 1), (2, 3)][1 := (2, Suc 3)])])
        [(''cat'', 1)] = Inr s'
      \<and> map_of [(0, 2), (2, 6::real)] (2::nat) = Some x \<and> map_of s' 2 = Some x' \<and> x \<le> x')"
proof -
  have a: "accumulate_dot_scores [(''cat'', 2)] [(''cat'', [(0, 1), (2, 3)])] [(''cat'', 1)]
     = Inr [(0, 2), (2, 6)]"
    by (simp add: accumulate_dot_scores_def dict_get_default_def)
  have k: "''cat'' \<in> set (keys [(''cat'', 2::nat)])" by (simp add: keys_def)
  show ?thesis
    using a k accumulate_dot_scores_monotone [where i = 0 and j = 1 and word = "''cat''"
        and index = "[(''cat'', [(0, 1), (2, 3)])]" and ps = "[(0, 1), (2, 3)]"
        and doc = 2 and tf = 3 and q = "[(''cat'', 2)]" and idf = "[(''cat'', 1)]"
        and s = "[(0, 2), (2, 6)]"]
    by simp
qed

section \<open>The ranker\<close>








section \<open>Posting lists\<close>

lemma map_of_add_posting:
  "map_of (add_posting i toks tok idx)
     = (map_of idx)(tok \<mapsto> dict_get_default idx tok [] @ [(i, count_list toks tok)])"
  by (simp add: add_posting_def dict_get_default_def map_of_dict_set split: option.splits)

lemma keys_add_posting:
  "set (keys (add_posting i toks tok idx)) = insert tok (set (keys idx))"
  "distinct (keys (add_posting i toks tok idx)) = distinct (keys idx)"
  by (simp_all add: add_posting_def set_keys_dict_set distinct_keys_dict_set split: option.splits)

lemma fold_add_posting:
  "distinct ts \<Longrightarrow>
   map_of (fold (add_posting i toks) ts idx) t
     = (if t \<in> set ts then Some (dict_get_default idx t [] @ [(i, count_list toks t)])
        else map_of idx t)"
proof (induction ts arbitrary: idx)
  case Nil
  then show ?case by simp
next
  case (Cons a ts)
  then have IH: "map_of (fold (add_posting i toks) ts (add_posting i toks a idx)) t
     = (if t \<in> set ts
        then Some (dict_get_default (add_posting i toks a idx) t [] @ [(i, count_list toks t)])
        else map_of (add_posting i toks a idx) t)"
    by simp
  from Cons.prems have "a \<notin> set ts" by simp
  then show ?case
    by (auto simp: IH map_of_add_posting dict_get_default_def)
qed

lemma keys_fold_add_posting:
  "set (keys (fold (add_posting i toks) ts idx)) = set (keys idx) \<union> set ts \<and>
   distinct (keys (fold (add_posting i toks) ts idx)) = distinct (keys idx)"
  by (induction ts arbitrary: idx) (simp_all add: keys_add_posting)

lemma postings_of_Cons:
  "postings_of (doc # docs) m t =
     (if t \<in> set (tokenize doc) then [(dict_get_default m doc 0, count_list (tokenize doc) t)] else [])
       @ postings_of docs m t"
  by (simp add: postings_of_def)

lemma index_docs_postings:
  assumes "\<forall>d \<in> set docs. set_list_ok set_list (tokenize d) \<and> d \<in> set (keys m)"
  shows "\<exists>idx'. index_docs set_list docs m idx = Inr idx' \<and>
           (\<forall>t. map_of idx' t =
                  (if postings_of docs m t = [] then map_of idx t
                   else Some (dict_get_default idx t [] @ postings_of docs m t))) \<and>
           set (keys idx') = set (keys idx) \<union> (\<Union>d \<in> set docs. set (tokenize d)) \<and>
           distinct (keys idx') = distinct (keys idx)"
  using assms
proof (induction docs arbitrary: idx)
  case Nil
  then show ?case by (simp add: postings_of_def)
next
  case (Cons doc docs)
  from Cons.prems have ok: "distinct (set_list (tokenize doc))"
      "set (set_list (tokenize doc)) = set (tokenize doc)"
    by (simp_all add: set_list_ok_def)
  from Cons.prems have "doc \<in> set (keys m)" by simp
  then obtain i where i: "map_of m doc = Some i"
    by (cases "map_of m doc") (simp_all add: map_of_eq_None_keys)
  let ?idx1 = "fold (add_posting i (tokenize doc)) (set_list (tokenize doc)) idx"
  from Cons.prems have "\<forall>d \<in> set docs. set_list_ok set_list (tokenize d) \<and> d \<in> set (keys m)"
    by simp
  from Cons.IH [OF this, of ?idx1] obtain idx' where
    run: "index_docs set_list docs m ?idx1 = Inr idx'"
    and post: "\<And>t. map_of idx' t =
                  (if postings_of docs m t = [] then map_of ?idx1 t
                   else Some (dict_get_default ?idx1 t [] @ postings_of docs m t))"
    and ks: "set (keys idx') = set (keys ?idx1) \<union> (\<Union>d \<in> set docs. set (tokenize d))"
    and dist: "distinct (keys idx') = distinct (keys ?idx1)"
    by blast
  have step: "index_docs set_list (doc # docs) m idx = Inr idx'"
    using run i by (simp add: Let_def)
  have i0: "dict_get_default m doc 0 = i"
    using i by (simp add: dict_get_default_def)
  have m1: "\<And>t. map_of ?idx1 t =
      (if t \<in> set (tokenize doc)
       then Some (dict_get_default idx t [] @ [(i, count_list (tokenize doc) t)])
       else map_of idx t)"
    using fold_add_posting [OF ok(1)] ok(2) by simp
  have "\<And>t. map_of idx' t =
          (if postings_of (doc # docs) m t = [] then map_of idx t
           else Some (dict_get_default idx t [] @ postings_of (doc # docs) m t))"
    by (simp add: post m1 postings_of_Cons dict_get_default_def i)
  moreover have "set (keys idx') = set (keys idx) \<union> (\<Union>d \<in> set (doc # docs). set (tokenize d))"
    using ks keys_fold_add_posting [of i "tokenize doc" "set_list (tokenize doc)" idx] ok(2)
    by auto
  moreover have "distinct (keys idx') = distinct (keys idx)"
    using dist keys_fold_add_posting [of i "tokenize doc" "set_list (tokenize doc)" idx]
    by simp
  ultimately show ?case using step by blast
qed

lemma build_index_postings:
  assumes "\<forall>d \<in> set docs. set_list_ok set_list (tokenize d) \<and> d \<in> set (keys m)"
  shows "\<exists>idx. build_token_inverted_index_with_freq set_list docs m = Inr idx \<and>
           (\<forall>t. map_of idx t =
                  (if postings_of docs m t = [] then None else Some (postings_of docs m t))) \<and>
           set (keys idx) = (\<Union>d \<in> set docs. set (tokenize d)) \<and>
           distinct (keys idx)"
proof -
  have e: "dict_get_default ([] :: inverted_index) t [] = []" for t
    by (simp add: dict_get_default_def)
  from index_docs_postings [OF assms, of "[]"] obtain idx where
    "index_docs set_list docs m [] = Inr idx"
    "\<And>t. map_of idx t = (if postings_of docs m t = [] then None else Some (postings_of docs m t))"
    "set (keys idx) = (\<Union>d \<in> set docs. set (tokenize d))" "distinct (keys idx)"
    unfolding e by (auto simp: keys_def [of "[]"])
  then show ?thesis
    unfolding build_token_inverted_index_with_freq_def by blast
qed


lemma id_of_distinct_doc:
  assumes "distinct docs" and "d \<in> set docs"
  shows "\<exists>i < length docs. docs ! i = d \<and> dict_get_default (build_doc_inverted_index docs) d 0 = i"
proof -
  from assms(2) obtain i where i: "i < length docs" "docs ! i = d"
    by (auto simp: in_set_conv_nth)
  from assms(1) i have "docs ! i \<notin> set (drop (Suc i) docs)"
    by (metis Cons_nth_drop_Suc distinct.simps(2) distinct_drop)
  from map_of_build_doc_inverted_index [OF i(1) this] i show ?thesis
    by (auto simp: dict_get_default_def)
qed

lemma ids_of_distinct_docs_ascending:
  assumes "distinct docs"
  shows "sorted_wrt (\<lambda>a b. dict_get_default (build_doc_inverted_index docs) a 0
                          < dict_get_default (build_doc_inverted_index docs) b 0) docs"
proof -
  let ?id = "\<lambda>d. dict_get_default (build_doc_inverted_index docs) d 0"
  have "?id (docs ! i) = i" if "i < length docs" for i
  proof -
    from that have "docs ! i \<in> set docs" by simp
    from id_of_distinct_doc [OF assms this] obtain k where
      k: "k < length docs" "docs ! k = docs ! i" "?id (docs ! i) = k" by blast
    with assms that have "k = i" by (simp add: nth_eq_iff_index_eq)
    with k show ?thesis by simp
  qed
  then show ?thesis
    by (simp add: sorted_wrt_iff_nth_less)
qed

lemma postings_of_distinct_docs:
  assumes "distinct docs"
  shows "sorted_wrt (<) (map fst (postings_of docs (build_doc_inverted_index docs) t)) \<and>
         (\<forall>p \<in> set (postings_of docs (build_doc_inverted_index docs) t). 1 \<le> snd p)"
proof
  let ?id = "\<lambda>d. dict_get_default (build_doc_inverted_index docs) d 0"
  have "sorted_wrt (\<lambda>a b. ?id a < ?id b) (filter (\<lambda>doc. t \<in> set (tokenize doc)) docs)"
    using ids_of_distinct_docs_ascending [OF assms] by (rule sorted_wrt_filter)
  then show "sorted_wrt (<) (map fst (postings_of docs (build_doc_inverted_index docs) t))"
    by (simp add: postings_of_def sorted_wrt_map comp_def)
next
  show "\<forall>p \<in> set (postings_of docs (build_doc_inverted_index docs) t). 1 \<le> snd p"
  proof
    fix p assume "p \<in> set (postings_of docs (build_doc_inverted_index docs) t)"
    then obtain d where "t \<in> set (tokenize d)" "snd p = count_list (tokenize d) t"
      by (auto simp: postings_of_def)
    then show "1 \<le> snd p"
      by (metis count_list_0_iff not_less_eq_eq le_zero_eq One_nat_def)
  qed
qed

text \<open>
  For a collection without repeated texts the invariant of the posting lists holds: strictly
  ascending document identifiers and frequencies of at least 1.
\<close>

lemma posting_lists_of_distinct_docs:
  assumes "distinct docs" and "\<forall>d \<in> set docs. set_list_ok set_list (tokenize d)"
  shows "\<exists>idx. build_token_inverted_index_with_freq set_list docs (build_doc_inverted_index docs)
                 = Inr idx \<and>
           (\<forall>t ps. map_of idx t = Some ps \<longrightarrow>
                sorted_wrt (<) (map fst ps) \<and> (\<forall>p \<in> set ps. 1 \<le> snd p))"
proof -
  let ?m = "build_doc_inverted_index docs"
  from assms(2) have "\<forall>d \<in> set docs. set_list_ok set_list (tokenize d) \<and> d \<in> set (keys ?m)"
    using keys_build_doc_inverted_index [of docs] by simp
  from build_index_postings [OF this] obtain idx where
    run: "build_token_inverted_index_with_freq set_list docs ?m = Inr idx"
    and post: "\<And>t. map_of idx t =
                  (if postings_of docs ?m t = [] then None else Some (postings_of docs ?m t))"
    by blast
  have "sorted_wrt (<) (map fst ps) \<and> (\<forall>p \<in> set ps. 1 \<le> snd p)"
    if "map_of idx t = Some ps" for t ps
  proof -
    from that post [of t] have "ps = postings_of docs ?m t"
      by (simp split: if_splits)
    with postings_of_distinct_docs [OF assms(1), of t] show ?thesis by simp
  qed
  with run show ?thesis by blast
qed

lemma tokenize_x_a: "tokenize ''x a'' = [''x'', ''a'']" "tokenize ''x b'' = [''x'', ''b'']"
  by (simp_all add: tokenize_def lower_def lower_char_def is_az_def)

text \<open>
  With a repeated text the posting list of a shared term is not ascending and lists a
  document twice, whatever the order in which the token sets are enumerated.
\<close>

lemma repeated_text_postings:
  assumes "set_list_ok set_list [''x'', ''a'']" and "set_list_ok set_list [''x'', ''b'']"
  shows "\<exists>idx. build_token_inverted_index_with_freq set_list [''x a'', ''x b'', ''x a'']
                 (build_doc_inverted_index [''x a'', ''x b'', ''x a'']) = Inr idx \<and>
               map_of idx ''x'' = Some [(2, 1), (1, 1), (2, 1)]"
proof -
  let ?docs = "[''x a'', ''x b'', ''x a'']"
  have m: "build_doc_inverted_index ?docs = [(''x a'', 2), (''x b'', 1)]"
    by (simp add: build_doc_inverted_index_def upt_rec)
  from assms have "\<forall>d \<in> set ?docs. set_list_ok set_list (tokenize d)
        \<and> d \<in> set (keys (build_doc_inverted_index ?docs))"
    by (simp add: tokenize_x_a m keys_def)
  from build_index_postings [OF this] obtain idx where
    run: "build_token_inverted_index_with_freq set_list ?docs (build_doc_inverted_index ?docs) = Inr idx"
    and post: "\<And>t. map_of idx t =
       (if postings_of ?docs (build_doc_inverted_index ?docs) t = [] then None
        else Some (postings_of ?docs (build_doc_inverted_index ?docs) t))"
    by blast
  have "postings_of ?docs (build_doc_inverted_index ?docs) ''x'' = [(2, 1), (1, 1), (2, 1)]"
    by (simp add: m postings_of_def tokenize_x_a dict_get_default_def)
  with run post [of "''x''"] show ?thesis by simp
qed

text \<open>
  C3: every posting list is sorted by ascending document identifier with at most one entry
  per document. For the collection \<open>["x a", "x b", "x a"]\<close> the repeated text has
  identifier 2, and the posting list of \<open>"x"\<close> is \<open>[(2, 1), (1, 1), (2, 1)]\<close>.
\<close>

theorem repeated_text_breaks_posting_order:
  "build_token_inverted_index_with_freq remdups [''x a'', ''x b'', ''x a'']
       (build_doc_inverted_index [''x a'', ''x b'', ''x a''])
     = Inr [(''x'', [(2, 1), (1, 1), (2, 1)]), (''a'', [(2, 1), (2, 1)]), (''b'', [(1, 1)])]"
  by (simp add: build_token_inverted_index_with_freq_def build_doc_inverted_index_def upt_rec
      tokenize_def lower_def lower_char_def is_az_def add_posting_def)

section \<open>The example collection, indexed and queried\<close>





































section \<open>Nearest documents\<close>




lemma example_sims:
  "map (\<lambda>row. dot row [1, 0]) [[0, 1], [1, 0], [1 / 2, 1 / 2]] = [0, 1, 1 / 2]"
  by (simp add: dot_def)


lemma closest_projects_example:
  "closest_projects_to_query stable_argsort (\<lambda>q w. q) [[0, 1], [1, 0], [1 / 2, 1 / 2]]
            () [1, 0] 1 = Inr [1, 2]"
  by (simp add: closest_projects_to_query_def mat_vec_def dot_def stable_argsort_def upt_rec)

end
